theory Spec2Isabelle
  imports Main "HOL-Library.AList"
begin

section \<open>The user-mapping registry of the webhooks relay (userMapping.js)\<close>

text \<open>
  The module keeps two process-wide variables, the index \<open>db\<close> (a plain object used as a
  dictionary from internalUserID to UserMapping) and the counter \<open>nextID\<close>, and mirrors
  every mapping to a redis server: a set of ids and one hash per id.

  Every redis command is asynchronous: the call only sends the command, and the function
  given with it runs later, when the reply arrives. The model keeps the commands that
  wait for their reply in the queue \<open>pending\<close>, each together with the function that
  handles its reply, written as data. One client connection answers its commands in the
  order they were sent, so a reply always belongs to the oldest pending command.

  Two types fix what the model covers. The ids and the counter are JavaScript numbers; the
  model takes the integers from \<open>-2^53\<close> to \<open>2^53\<close>, which the code's arithmetic does
  not leave. An internalUserID is any string other than \<open>__proto__\<close>, the one key under
  which an assignment to the index adds no entry.
\<close>

subsection \<open>Numbers\<close>

text \<open>
  The numbers of the model are the integers \<open>n\<close> with \<open>-2^53 \<le> n \<le> 2^53\<close>. Each of them is
  a double, \<open>String\<close> writes it as its decimal numeral and \<open>parseInt\<close> reads that numeral
  back, so an id comes out of the store as it went in.
\<close>

typedef jsnum = "{n :: int. - 9007199254740992 \<le> n \<and> n \<le> 9007199254740992}"
  morphisms int_of Abs_jsnum
  by (rule exI [of _ 0]) simp

setup_lifting type_definition_jsnum

instantiation jsnum :: linorder
begin

lift_definition less_eq_jsnum :: "jsnum \<Rightarrow> jsnum \<Rightarrow> bool" is "(\<le>)" .

lift_definition less_jsnum :: "jsnum \<Rightarrow> jsnum \<Rightarrow> bool" is "(<)" .

instance
  by standard (transfer; auto)+

end

instantiation jsnum :: equal
begin

lift_definition equal_jsnum :: "jsnum \<Rightarrow> jsnum \<Rightarrow> bool" is "(=)" .

instance
  by standard (transfer, simp)

end

text \<open>The number \<open>n\<close>, for writing down the numbers of the model (0 outside their range).\<close>

lift_definition num :: "int \<Rightarrow> jsnum"
  is "\<lambda>n. if - 9007199254740992 \<le> n \<and> n \<le> 9007199254740992 then n else 0"
  by simp

text \<open>
  \<open>n + 1\<close> in double arithmetic: exact below \<open>2^53\<close>; \<open>2^53 + 1\<close> is not a double and
  rounds to the even neighbour, which is \<open>2^53\<close> again.
\<close>

lift_definition plus_one :: "jsnum \<Rightarrow> jsnum"
  is "\<lambda>n. if n < 9007199254740992 then n + 1 else n"
  by auto

definition top :: jsnum where
  "top = num 9007199254740992"

subsection \<open>Keys of the index\<close>

text \<open>
  The index is the plain object \<open>db\<close>. For every key but one, \<open>db[k] = v\<close> makes or
  overwrites an own property. The exception is \<open>__proto__\<close>: that assignment replaces the
  prototype of \<open>db\<close> and adds no entry, and from then on the scans also visit the fields
  of the saved mapping, among them the redis client, which is no part of this file. The
  internalUserIDs of the model are therefore the strings other than \<open>__proto__\<close>.
\<close>

typedef user_id = "{k :: string. k \<noteq> ''__proto__''}"
  morphisms text_of Abs_user_id
  by (rule exI [of _ "[]"]) simp

setup_lifting type_definition_user_id

instantiation user_id :: equal
begin

lift_definition equal_user_id :: "user_id \<Rightarrow> user_id \<Rightarrow> bool" is "(=)" .

instance
  by standard (transfer, simp)

end

text \<open>The internalUserID with the text \<open>k\<close>, for writing down keys (the empty key for \<open>__proto__\<close>).\<close>

lift_definition uid :: "string \<Rightarrow> user_id"
  is "\<lambda>k. if k = ''__proto__'' then [] else k"
  by simp

text \<open>
  The names that \<open>db\<close> inherits from \<open>Object.prototype\<close>, \<open>__proto__\<close> apart. Each holds a
  function, so \<open>db[k]\<close> is truthy for these names also when the index has no such entry.
  None of them is enumerable, and an assignment to one of them makes an own property.
\<close>

definition inherited :: "string list" where
  "inherited =
     [''constructor'', ''__defineGetter__'', ''__defineSetter__'', ''hasOwnProperty'',
      ''__lookupGetter__'', ''__lookupSetter__'', ''isPrototypeOf'', ''propertyIsEnumerable'',
      ''toString'', ''valueOf'', ''toLocaleString'']"

subsection \<open>Data\<close>

record UserMapping =
  id' :: jsnum
  internalUserID :: user_id
  externalUserID :: string
  meetingId :: string

text \<open>The error object of a failed redis command, by its message.\<close>

type_synonym redis_error = string

datatype reply = Ack | Failed redis_error

text \<open>
  A \<open>callback\<close> argument is any JavaScript value. \<open>Some f\<close> is the function \<open>f\<close>,
  \<open>None\<close> a value whose \<open>typeof\<close> is not \<open>'function'\<close> (a missing argument).
\<close>

type_synonym callback = "nat option"

datatype jsval =
    Undefined
  | Null
  | Error redis_error
  | Bool bool
  | Number jsnum
  | Obj UserMapping
  | Array "jsval list"

datatype fault = TypeError

text \<open>
  The functions handed to \<open>save\<close>: the caller's own callback, the closure of
  \<open>addMapping\<close> (which captures the caller's callback), and the closure of a \<open>resync\<close>
  task (which captures the tasks still to run and the caller's callback).
\<close>

datatype save_cb =
    SaveUser callback
  | SaveAdded callback
  | SaveResynced "jsnum list" callback

text \<open>
  The functions handed to \<open>destroy\<close>. The closures of the two scans read the variable
  \<open>mapping\<close>, declared with \<open>var\<close> and therefore shared by all iterations: when a
  closure runs, the scan is over and the variable holds the entry visited last.
\<close>

datatype destroy_cb =
    DestroyUser callback
  | DestroyRemoved user_id UserMapping callback
  | DestroyRemovedMeeting UserMapping callback

text \<open>A redis command that waits for its reply, with the handler of the reply.\<close>

datatype request =
    Hmset UserMapping save_cb
  | Sadd UserMapping save_cb
  | Srem UserMapping destroy_cb
  | Del UserMapping destroy_cb
  | Smembers callback
  | Hgetall jsnum "jsnum list" callback

text \<open>What the module does to the outside: lines written to the logger and callbacks called.\<close>

datatype event =
    LogError string redis_error
  | LogInfo string "UserMapping list"
  | Called nat "jsval list"

text \<open>
  The redis server: the hash stored for each id (the four fields that \<open>toRedis\<close> writes
  and \<open>fromRedis\<close> reads back) and the set of ids, in the order \<open>smembers\<close> lists it.
\<close>

record redis_store =
  hashes :: "jsnum \<Rightarrow> UserMapping option"
  members :: "jsnum list"

record state =
  db :: "(user_id \<times> UserMapping) list"
  nextID :: jsnum
  store :: redis_store
  pending :: "request list"
  events :: "event list"

type_synonym result = "(fault + unit) \<times> state"

subsection \<open>Logging, callbacks, sending commands\<close>

definition log_error :: "string \<Rightarrow> reply \<Rightarrow> state \<Rightarrow> state" where
  "log_error msg r s =
     (case r of Ack \<Rightarrow> s | Failed e \<Rightarrow> s\<lparr>events := events s @ [LogError msg e]\<rparr>)"

definition log_info :: "string \<Rightarrow> UserMapping list \<Rightarrow> state \<Rightarrow> state" where
  "log_info msg ms s = s\<lparr>events := events s @ [LogInfo msg ms]\<rparr>"

definition error_of :: "reply \<Rightarrow> jsval" where
  "error_of r = (case r of Ack \<Rightarrow> Null | Failed e \<Rightarrow> Error e)"

text \<open>\<open>callback(args)\<close>: calling a value that is not a function throws a TypeError.\<close>

definition call_fn :: "callback \<Rightarrow> jsval list \<Rightarrow> state \<Rightarrow> result" where
  "call_fn cb args s =
     (case cb of
        None \<Rightarrow> (Inl TypeError, s)
      | Some f \<Rightarrow> (Inr (), s\<lparr>events := events s @ [Called f args]\<rparr>))"

text \<open>\<open>(typeof callback === 'function' ? callback(args) : undefined)\<close>\<close>

definition guarded :: "callback \<Rightarrow> jsval list \<Rightarrow> state \<Rightarrow> result" where
  "guarded cb args s = (if cb \<noteq> None then call_fn cb args s else (Inr (), s))"

definition issue :: "request \<Rightarrow> state \<Rightarrow> state" where
  "issue q s = s\<lparr>pending := pending s @ [q]\<rparr>"

subsection \<open>The instance methods\<close>

definition save :: "UserMapping \<Rightarrow> save_cb \<Rightarrow> state \<Rightarrow> state" where
  "save m cb s = issue (Hmset m cb) s"

definition destroy :: "UserMapping \<Rightarrow> destroy_cb \<Rightarrow> state \<Rightarrow> state" where
  "destroy m cb s = issue (Srem m cb) s"

text \<open>
  The order in which \<open>for (... in db)\<close> and \<open>Object.keys(db)\<close> visit the index: the
  keys that are array indices (decimal numerals without a leading zero, below
  \<open>2^32 - 1\<close>) come first, in ascending numeric order, and all other keys follow in
  the order in which they were inserted.
\<close>

definition digit :: "char \<Rightarrow> bool" where
  "digit c = (c \<in> set ''0123456789'')"

definition numeric :: "string \<Rightarrow> int" where
  "numeric k = foldl (\<lambda>n c. 10 * n + (of_char c - 48)) 0 k"

definition array_index :: "string \<Rightarrow> bool" where
  "array_index k =
     (k \<noteq> [] \<and> list_all digit k \<and> (if hd k = CHR ''0'' then k = ''0'' else True) \<and>
      numeric k < 4294967295)"

definition for_in :: "(user_id \<times> 'a) list \<Rightarrow> (user_id \<times> 'a) list" where
  "for_in d =
     sort_key (\<lambda>p. numeric (text_of (fst p))) (filter (\<lambda>p. array_index (text_of (fst p))) d) @
     filter (\<lambda>p. \<not> array_index (text_of (fst p))) d"

definition allSync :: "state \<Rightarrow> UserMapping list" where
  "allSync s = map snd (for_in (db s))"

text \<open>
  \<open>db[internalUserID]\<close> is an entry of the index or, for an inherited name without an
  entry, a function, which has no \<open>externalUserID\<close>: the result is then \<open>undefined\<close>, as
  for a key that \<open>db\<close> does not know at all.
\<close>

definition getExternalUserID :: "user_id \<Rightarrow> state \<Rightarrow> string option" where
  "getExternalUserID i s =
     (case map_of (db s) i of Some m \<Rightarrow> Some (externalUserID m) | None \<Rightarrow> None)"

text \<open>
  The test \<open>if (db[this.internalUserID])\<close> of \<open>destroy\<close>: an entry of the index is an
  object and so truthy, and so is the function that an inherited name holds.
\<close>

definition truthy :: "(user_id \<times> UserMapping) list \<Rightarrow> user_id \<Rightarrow> bool" where
  "truthy d k = (case map_of d k of Some m \<Rightarrow> True | None \<Rightarrow> text_of k \<in> set inherited)"

subsection \<open>Handling a reply\<close>

text \<open>
  \<open>async.series\<close>: run the next task, which sends its \<open>hgetall\<close>; after the last task,
  call the final function, which logs the index and calls the caller's callback.
\<close>

definition series :: "jsnum list \<Rightarrow> callback \<Rightarrow> state \<Rightarrow> result" where
  "series tasks c s =
     (case tasks of
        [] \<Rightarrow> guarded c []
                (log_info ''[UserMapping] finished resync, mappings registered:'' (allSync s) s)
      | i # rest \<Rightarrow> (Inr (), issue (Hgetall i rest c) s))"

text \<open>The call \<open>callback(error, db[this.internalUserID])\<close> that ends \<open>save\<close>.\<close>

fun save_callback :: "save_cb \<Rightarrow> jsval \<Rightarrow> UserMapping \<Rightarrow> state \<Rightarrow> result" where
  "save_callback (SaveUser c) err m s = guarded c [err, Obj m] s"
| "save_callback (SaveAdded c) err m s =
     guarded c [err, Obj m]
       (log_info (''[UserMapping] added user mapping to the list '' @ text_of (internalUserID m) @ '':'')
          [m] s)"
| "save_callback (SaveResynced rest c) err m s =
     series rest c (if nextID s \<le> id' m then s\<lparr>nextID := plus_one (id' m)\<rparr> else s)"

text \<open>The call \<open>callback(error, true)\<close> or \<open>callback(error, false)\<close> that ends \<open>destroy\<close>.\<close>

fun destroy_callback :: "destroy_cb \<Rightarrow> jsval \<Rightarrow> bool \<Rightarrow> state \<Rightarrow> result" where
  "destroy_callback (DestroyUser c) err b s = guarded c [err, Bool b] s"
| "destroy_callback (DestroyRemoved i shown c) err b s =
     guarded c [err, Bool b]
       (log_info (''[UserMapping] removing user mapping from the list '' @ text_of i @ '':'')
          [shown] s)"
| "destroy_callback (DestroyRemovedMeeting shown c) err b s =
     guarded c [err, Bool b]
       (log_info
          (''[UserMapping] removing user mapping from the list '' @
             text_of (internalUserID shown) @ '':'')
          [shown] s)"

text \<open>
  The functions given to the redis client, one per command. In \<open>save\<close> and \<open>destroy\<close>
  the inner function's parameter \<open>error\<close> hides the outer one, so the callback receives
  the error of the second command. A failed \<open>smembers\<close> leaves \<open>mappings\<close> undefined,
  and \<open>mappings.forEach\<close> throws; a failed \<open>hgetall\<close>, like a missing hash, gives no
  data, and the task is skipped.
\<close>

fun resume :: "request \<Rightarrow> reply \<Rightarrow> state \<Rightarrow> result" where
  "resume (Hmset m cb) r s =
     (Inr (), issue (Sadd m cb) (log_error ''[UserMapping] error saving mapping to redis:'' r s))"
| "resume (Sadd m cb) r s =
     (let s1 = log_error ''[UserMapping] error saving mapping ID to the list of mappings:'' r s;
          s2 = s1\<lparr>db := AList.update (internalUserID m) m (db s1)\<rparr>
      in save_callback cb (error_of r) m s2)"
| "resume (Srem m cb) r s =
     (Inr (), issue (Del m cb)
        (log_error ''[UserMapping] error removing mapping ID from the list of mappings:'' r s))"
| "resume (Del m cb) r s =
     (let s1 = log_error ''[UserMapping] error removing mapping from redis:'' r s
      in if truthy (db s1) (internalUserID m)
         then destroy_callback cb (error_of r) True
                (s1\<lparr>db := AList.delete (internalUserID m) (db s1)\<rparr>)
         else destroy_callback cb (error_of r) False s1)"
| "resume (Smembers c) r s =
     (let s1 = log_error ''[UserMapping] error getting list of mappings from redis:'' r s
      in case r of
           Failed e \<Rightarrow> (Inl TypeError, s1)
         | Ack \<Rightarrow> series (members (store s1)) c s1)"
| "resume (Hgetall i rest c) r s =
     (let s1 = log_error ''[UserMapping] error getting information for a mapping from redis:'' r s;
          mappingData = (case r of Ack \<Rightarrow> hashes (store s1) i | Failed e \<Rightarrow> None)
      in case mappingData of
           Some m \<Rightarrow> (Inr (), save m (SaveResynced rest c) s1)
         | None \<Rightarrow> series rest c s1)"

text \<open>What a command does to the server when it succeeds.\<close>

fun effect :: "request \<Rightarrow> redis_store \<Rightarrow> redis_store" where
  "effect (Hmset m cb) st = st\<lparr>hashes := (hashes st)(id' m \<mapsto> m)\<rparr>"
| "effect (Sadd m cb) st =
     st\<lparr>members := (if id' m \<in> set (members st) then members st else members st @ [id' m])\<rparr>"
| "effect (Srem m cb) st = st\<lparr>members := removeAll (id' m) (members st)\<rparr>"
| "effect (Del m cb) st = st\<lparr>hashes := (hashes st)(id' m := None)\<rparr>"
| "effect (Smembers c) st = st"
| "effect (Hgetall i rest c) st = st"

text \<open>
  The reply to the oldest pending command arrives: a command that succeeded has taken
  effect on the server, a failed one has not, and the handler runs with the reply.
\<close>

definition deliver :: "reply \<Rightarrow> state \<Rightarrow> result" where
  "deliver r s =
     (case pending s of
        [] \<Rightarrow> (Inr (), s)
      | q # qs \<Rightarrow>
          resume q r
            (s\<lparr>pending := qs,
               store := (case r of Ack \<Rightarrow> effect q (store s) | Failed e \<Rightarrow> store s)\<rparr>))"

subsection \<open>The static methods\<close>

text \<open>\<open>mapping.id = nextID++\<close>: the mapping gets the counter's value, and the counter goes on by one.\<close>

definition addMapping :: "user_id \<Rightarrow> string \<Rightarrow> string \<Rightarrow> callback \<Rightarrow> state \<Rightarrow> state" where
  "addMapping i e mid c s =
     save \<lparr>id' = nextID s, internalUserID = i, externalUserID = e, meetingId = mid\<rparr>
       (SaveAdded c) (s\<lparr>nextID := plus_one (nextID s)\<rparr>)"

text \<open>
  The scans visit every entry of the index; \<open>destroy\<close> only sends a command, so the index
  does not change during a scan. The closures are made only inside the loop, hence only
  when the index is not empty, and \<open>last\<close> is then the entry visited last.
\<close>

definition removeMapping :: "user_id \<Rightarrow> callback \<Rightarrow> state \<Rightarrow> jsval \<times> state" where
  "removeMapping i c s =
     (let ms = allSync s
      in (Array (map (\<lambda>m. Undefined) ms),
          foldl (\<lambda>t m. if internalUserID m = i
                       then destroy m (DestroyRemoved i (last ms) c) t else t) s ms))"

definition removeMappingMeetingId :: "string \<Rightarrow> callback \<Rightarrow> state \<Rightarrow> result" where
  "removeMappingMeetingId mid c s =
     (let ms = allSync s
      in call_fn c []
           (foldl (\<lambda>t m. if meetingId m = mid
                         then destroy m (DestroyRemovedMeeting (last ms) c) t else t) s ms))"

definition resync :: "callback \<Rightarrow> state \<Rightarrow> state" where
  "resync c s = issue (Smembers c) s"

definition initialize :: "callback \<Rightarrow> state \<Rightarrow> state" where
  "initialize c s = resync c s"

subsection \<open>Runs of the process\<close>

text \<open>A process starts with an empty index and the counter at 1, on whatever the server holds.\<close>

definition boot :: "redis_store \<Rightarrow> state" where
  "boot st = \<lparr>db = [], nextID = num 1, store = st, pending = [], events = []\<rparr>"

definition empty_store :: redis_store where
  "empty_store = \<lparr>hashes = (\<lambda>k. None), members = []\<rparr>"

datatype action =
    AddMapping user_id string string callback
  | RemoveMapping user_id callback
  | RemoveMappingMeetingId string callback
  | Resync callback
  | Save UserMapping callback
  | Destroy UserMapping callback
  | Reply reply

text \<open>One turn of the event loop: a call from the relay, or the arrival of a reply.\<close>

fun step :: "action \<Rightarrow> state \<Rightarrow> state" where
  "step (AddMapping i e mid c) s = addMapping i e mid c s"
| "step (RemoveMapping i c) s = snd (removeMapping i c s)"
| "step (RemoveMappingMeetingId mid c) s = snd (removeMappingMeetingId mid c s)"
| "step (Resync c) s = resync c s"
| "step (Save m c) s = save m (SaveUser c) s"
| "step (Destroy m c) s = destroy m (DestroyUser c) s"
| "step (Reply r) s = snd (deliver r s)"

definition run :: "action list \<Rightarrow> state \<Rightarrow> state" where
  "run as s = foldl (\<lambda>t a. step a t) s as"

subsection \<open>Observations on states and runs\<close>

text \<open>The index is well formed: no key occurs twice, and every entry sits under its own internalUserID.\<close>

definition db_ok :: "state \<Rightarrow> bool" where
  "db_ok s = (distinct (map fst (db s)) \<and> (\<forall>(k, m) \<in> set (db s). internalUserID m = k))"

text \<open>The argument lists with which the function \<open>f\<close> has been called, oldest first.\<close>

fun calls_of :: "nat \<Rightarrow> event list \<Rightarrow> jsval list list" where
  "calls_of f [] = []"
| "calls_of f (Called g args # es) = (if g = f then args # calls_of f es else calls_of f es)"
| "calls_of f (LogError msg e # es) = calls_of f es"
| "calls_of f (LogInfo msg ms # es) = calls_of f es"

text \<open>
  The ids that \<open>addMapping\<close> hands out during a run, in the order of the calls: the id
  of the mapping that each call has made and given to \<open>save\<close>, read off the \<open>hmset\<close>
  that the call has just sent.
\<close>

fun sent_id :: "request list \<Rightarrow> jsnum list" where
  "sent_id [] = []"
| "sent_id [Hmset m cb] = [id' m]"
| "sent_id [q] = []"
| "sent_id (q # qs) = sent_id qs"

fun allocs :: "action list \<Rightarrow> state \<Rightarrow> jsnum list" where
  "allocs [] s = []"
| "allocs (AddMapping i e mid c # as) s =
     sent_id (pending (step (AddMapping i e mid c) s)) @ allocs as (step (AddMapping i e mid c) s)"
| "allocs (a # as) s = allocs as (step a s)"

text \<open>
  The mappings that \<open>resync\<close> rebuilds during a run: a mapping counts once the \<open>save\<close> of
  its task is complete, that is when the reply to the \<open>sadd\<close> of that task arrives.
\<close>

fun recovered :: "action list \<Rightarrow> state \<Rightarrow> UserMapping list" where
  "recovered [] s = []"
| "recovered (Reply r # as) s =
     (case pending s of
        Sadd m (SaveResynced rest c) # qs \<Rightarrow> m # recovered as (step (Reply r) s)
      | _ \<Rightarrow> recovered as (step (Reply r) s))"
| "recovered (a # as) s = recovered as (step a s)"

text \<open>
  The externalUserID given by the most recent \<open>addMapping\<close> call of a run for the
  internalUserID \<open>u\<close>, if the run has such a call.
\<close>

fun latest :: "action list \<Rightarrow> user_id \<Rightarrow> string option" where
  "latest [] u = None"
| "latest (AddMapping i e mid c # as) u =
     (case latest as u of Some e' \<Rightarrow> Some e' | None \<Rightarrow> if i = u then Some e else None)"
| "latest (a # as) u = latest as u"

text \<open>Runs that consist of \<open>addMapping\<close> calls and arrivals of replies.\<close>

fun adding :: "action \<Rightarrow> bool" where
  "adding (AddMapping i e mid c) = True"
| "adding (Reply r) = True"
| "adding a = False"

text \<open>
  The pending commands of such runs belong to the \<open>save\<close> of an \<open>addMapping\<close>. The
  mappings on their way into the index, in the order in which they will arrive there:
  those whose \<open>sadd\<close> is pending come before those whose \<open>hmset\<close> is pending.
\<close>

fun added :: "request \<Rightarrow> bool" where
  "added (Hmset m (SaveAdded c)) = True"
| "added (Sadd m (SaveAdded c)) = True"
| "added q = False"

fun second_stage :: "request \<Rightarrow> UserMapping list" where
  "second_stage (Sadd m cb) = [m]"
| "second_stage q = []"

fun first_stage :: "request \<Rightarrow> UserMapping list" where
  "first_stage (Hmset m cb) = [m]"
| "first_stage q = []"

definition arriving :: "request list \<Rightarrow> UserMapping list" where
  "arriving qs = concat (map second_stage qs) @ concat (map first_stage qs)"

definition insert_all ::
  "UserMapping list \<Rightarrow> (user_id \<times> UserMapping) list \<Rightarrow> (user_id \<times> UserMapping) list" where
  "insert_all ms d = foldl (\<lambda>d m. AList.update (internalUserID m) m d) d ms"

definition eventual :: "state \<Rightarrow> (user_id \<times> UserMapping) list" where
  "eventual s = insert_all (arriving (pending s)) (db s)"

text \<open>A server that holds one record, with id 5, and one that holds a record with id \<open>2^53\<close>.\<close>

definition one_record :: redis_store where
  "one_record =
     \<lparr>hashes = (\<lambda>k. if k = num 5
                      then Some \<lparr>id' = num 5, internalUserID = uid ''u5'',
                                 externalUserID = ''e5'', meetingId = ''m1''\<rparr>
                      else None),
      members = [num 5]\<rparr>"

definition top_record :: redis_store where
  "top_record =
     \<lparr>hashes = (\<lambda>k. if k = top
                      then Some \<lparr>id' = top, internalUserID = uid ''u5'',
                                 externalUserID = ''e5'', meetingId = ''m1''\<rparr>
                      else None),
      members = [top]\<rparr>"

text \<open>
  A server that holds the given records and nothing else: each under its own id, and the
  set of ids listing them in the given order.
\<close>

definition populated :: "UserMapping list \<Rightarrow> redis_store" where
  "populated rs = \<lparr>hashes = map_of (map (\<lambda>m. (id' m, m)) rs), members = map id' rs\<rparr>"

text \<open>The counter after the save callbacks of the given rebuilt mappings have run.\<close>

definition raise_all :: "UserMapping list \<Rightarrow> jsnum \<Rightarrow> jsnum" where
  "raise_all ms n = foldl (\<lambda>n m. if n \<le> id' m then plus_one (id' m) else n) n ms"

text \<open>
  The replies to a \<open>resync\<close> whose reads succeed: the \<open>smembers\<close> succeeds, and each
  task gets its \<open>hgetall\<close> answered and then the two replies \<open>w\<close> to its \<open>hmset\<close> and
  \<open>sadd\<close>, which may be failures.
\<close>

definition reads_succeed :: "(reply \<times> reply) list \<Rightarrow> action list" where
  "reads_succeed ws = Reply Ack # concat (map (\<lambda>w. [Reply Ack, Reply (fst w), Reply (snd w)]) ws)"

text \<open>Records for examples: two that share an internalUserID, three that do not, one with the id \<open>2^53\<close>.\<close>

definition two_records :: "UserMapping list" where
  "two_records =
     [\<lparr>id' = num 1, internalUserID = uid ''u1'', externalUserID = ''e1'', meetingId = ''m1''\<rparr>,
      \<lparr>id' = num 2, internalUserID = uid ''u1'', externalUserID = ''e2'', meetingId = ''m1''\<rparr>]"

definition three_records :: "UserMapping list" where
  "three_records =
     [\<lparr>id' = num 4, internalUserID = uid ''u4'', externalUserID = ''e4'', meetingId = ''m1''\<rparr>,
      \<lparr>id' = num 2, internalUserID = uid ''u2'', externalUserID = ''e2'', meetingId = ''m1''\<rparr>,
      \<lparr>id' = num 7, internalUserID = uid ''u7'', externalUserID = ''e7'', meetingId = ''m2''\<rparr>]"

definition last_record :: "UserMapping list" where
  "last_record =
     [\<lparr>id' = top, internalUserID = uid ''u5'', externalUserID = ''e5'', meetingId = ''m1''\<rparr>]"

section \<open>Properties\<close>

subsection \<open>Numbers and keys\<close>

lemma jsnum_eq_iff: "(x = y) = (int_of x = int_of y)"
  by (simp add: int_of_inject)

lemma user_id_eq_iff: "(j = k) = (text_of j = text_of k)"
  by (simp add: text_of_inject)

lemma plus_one_upper: "n \<le> plus_one n"
  by transfer simp

lemma plus_one_above: "n < top \<Longrightarrow> n < plus_one n"
  unfolding top_def by transfer simp

lemma plus_one_exact: "n < top \<Longrightarrow> int_of (plus_one n) = int_of n + 1"
  unfolding top_def by transfer simp

lemma plus_one_top: "plus_one top = top"
  unfolding top_def by transfer simp

lemma below_top: "n \<le> top"
  unfolding top_def by transfer simp

subsection \<open>What each function leaves alone\<close>

lemma log_error_fields [simp]:
  "db (log_error msg r s) = db s" "nextID (log_error msg r s) = nextID s"
  "store (log_error msg r s) = store s" "pending (log_error msg r s) = pending s"
  by (simp_all add: log_error_def split: reply.splits)

lemma log_info_fields [simp]:
  "db (log_info msg ms s) = db s" "nextID (log_info msg ms s) = nextID s"
  "store (log_info msg ms s) = store s" "pending (log_info msg ms s) = pending s"
  by (simp_all add: log_info_def)

lemma issue_fields [simp]:
  "db (issue q s) = db s" "nextID (issue q s) = nextID s"
  "store (issue q s) = store s" "pending (issue q s) = pending s @ [q]"
  "events (issue q s) = events s"
  by (simp_all add: issue_def)

lemma guarded_fields [simp]:
  "fst (guarded c args s) = Inr ()"
  "db (snd (guarded c args s)) = db s" "nextID (snd (guarded c args s)) = nextID s"
  "store (snd (guarded c args s)) = store s" "pending (snd (guarded c args s)) = pending s"
  by (simp_all add: guarded_def call_fn_def split: option.splits)

lemma series_fields [simp]:
  "fst (series tasks c s) = Inr ()"
  "db (snd (series tasks c s)) = db s" "nextID (snd (series tasks c s)) = nextID s"
  "store (snd (series tasks c s)) = store s"
  by (simp_all add: series_def split: list.splits)

lemma save_callback_fields [simp]:
  "fst (save_callback cb err m s) = Inr ()"
  "db (snd (save_callback cb err m s)) = db s"
  "store (snd (save_callback cb err m s)) = store s"
  by (cases cb; simp)+

lemma destroy_callback_fields [simp]:
  "fst (destroy_callback cb err b s) = Inr ()"
  "db (snd (destroy_callback cb err b s)) = db s"
  "nextID (snd (destroy_callback cb err b s)) = nextID s"
  "store (snd (destroy_callback cb err b s)) = store s"
  "pending (snd (destroy_callback cb err b s)) = pending s"
  by (cases cb; simp)+

lemma nextID_save_callback:
  "nextID (snd (save_callback cb err m s)) =
     (case cb of
        SaveResynced rest c \<Rightarrow> (if nextID s \<le> id' m then plus_one (id' m) else nextID s)
      | _ \<Rightarrow> nextID s)"
  by (cases cb) simp_all

lemma db_resume:
  "db (snd (resume q r s)) =
     (case q of
        Sadd m cb \<Rightarrow> AList.update (internalUserID m) m (db s)
      | Del m cb \<Rightarrow> AList.delete (internalUserID m) (db s)
      | _ \<Rightarrow> db s)"
  by (cases q)
    (simp_all add: Let_def save_def truthy_def map_of_eq_None_iff
      split: reply.splits option.splits)

lemma nextID_resume:
  "nextID (snd (resume q r s)) =
     (case q of
        Sadd m (SaveResynced rest c) \<Rightarrow> (if nextID s \<le> id' m then plus_one (id' m) else nextID s)
      | _ \<Rightarrow> nextID s)"
  by (cases q)
    (simp_all add: Let_def save_def nextID_save_callback
      split: reply.splits option.splits save_cb.splits)

text \<open>A scan sends one \<open>srem\<close> for each entry that matches, in the order of the index.\<close>

lemma scan_sends:
  "foldl (\<lambda>t m. if P m then destroy m cb t else t) s ms =
     s\<lparr>pending := pending s @ map (\<lambda>m. Srem m cb) (filter P ms)\<rparr>"
  by (induction ms arbitrary: s) (simp_all add: destroy_def issue_def)

lemma db_step:
  "db (step a s) =
     (case a of
        Reply r \<Rightarrow>
          (case pending s of
             Sadd m cb # qs \<Rightarrow> AList.update (internalUserID m) m (db s)
           | Del m cb # qs \<Rightarrow> AList.delete (internalUserID m) (db s)
           | _ \<Rightarrow> db s)
      | _ \<Rightarrow> db s)"
  by (cases a)
    (simp_all add: addMapping_def save_def removeMapping_def removeMappingMeetingId_def
      scan_sends call_fn_def resync_def destroy_def deliver_def db_resume Let_def
      split: option.splits list.splits request.splits)

lemma nextID_step:
  "nextID (step a s) =
     (case a of
        AddMapping i e mid c \<Rightarrow> plus_one (nextID s)
      | Reply r \<Rightarrow>
          (case pending s of
             Sadd m (SaveResynced rest c) # qs \<Rightarrow>
               (if nextID s \<le> id' m then plus_one (id' m) else nextID s)
           | _ \<Rightarrow> nextID s)
      | _ \<Rightarrow> nextID s)"
  by (cases a)
    (simp_all add: addMapping_def save_def removeMapping_def removeMappingMeetingId_def
      scan_sends call_fn_def resync_def destroy_def deliver_def nextID_resume Let_def
      split: option.splits list.splits request.splits save_cb.splits)

lemma run_Cons: "run (a # as) s = run as (step a s)"
  by (simp add: run_def)

lemma run_append: "run (as @ bs) s = run bs (run as s)"
  by (simp add: run_def)

lemma run_Nil: "run [] s = s"
  by (simp add: run_def)

text \<open>The id that \<open>addMapping\<close> hands out is the value of the counter at the call.\<close>

lemma sent_id_last: "sent_id (qs @ [Hmset m cb]) = [id' m]"
  by (induction qs rule: sent_id.induct) simp_all

lemma allocs_Cons:
  "allocs (a # as) s =
     (case a of AddMapping i e mid c \<Rightarrow> [nextID s] | _ \<Rightarrow> []) @ allocs as (step a s)"
  by (cases a) (simp_all add: addMapping_def save_def sent_id_last)

lemma recovered_Cons:
  "recovered (a # as) s =
     (case a of
        Reply r \<Rightarrow> (case pending s of Sadd m (SaveResynced rest c) # qs \<Rightarrow> [m] | _ \<Rightarrow> [])
      | _ \<Rightarrow> []) @ recovered as (step a s)"
  by (cases a) (simp_all split: list.splits request.splits save_cb.splits)

lemma calls_of_append: "calls_of f (es @ fs) = calls_of f es @ calls_of f fs"
  by (induction f es rule: calls_of.induct) simp_all

lemma insert_all_simps [simp]:
  "insert_all [] d = d"
  "insert_all (m # ms) d = insert_all ms (AList.update (internalUserID m) m d)"
  "insert_all (ms @ ns) d = insert_all ns (insert_all ms d)"
  by (simp_all add: insert_all_def)

lemma srem_reply:
  assumes "pending t = Srem m cb # qs"
  shows "pending (step (Reply r) t) = qs @ [Del m cb]"
    and "calls_of f (events (step (Reply r) t)) = calls_of f (events t)"
    and "db (step (Reply r) t) = db t"
  using assms
  by (simp_all add: deliver_def log_error_def issue_def calls_of_append split: reply.splits)

lemma del_reply_db:
  assumes "pending t = Del m cb # qs"
  shows "pending (step (Reply r) t) = qs"
    and "db (step (Reply r) t) = AList.delete (internalUserID m) (db t)"
  using assms db_step [of "Reply r" t] by (simp_all add: deliver_def Let_def)

text \<open>The enumeration visits every entry of the index once.\<close>

lemma for_in_length [simp]: "length (for_in d) = length d"
  by (simp add: for_in_def sum_length_filter_compl)

lemma for_in_set [simp]: "set (for_in d) = set d"
  by (auto simp: for_in_def)

lemma allSync_length: "length (allSync s) = length (db s)"
  by (simp add: allSync_def)

lemma allSync_set: "set (allSync s) = snd ` set (db s)"
  by (simp add: allSync_def)

text \<open>The definitions to unfold when a run is evaluated on concrete input.\<close>

lemmas model_defs = run_def boot_def empty_store_def addMapping_def save_def destroy_def
  issue_def deliver_def log_error_def log_info_def guarded_def call_fn_def allSync_def
  error_of_def series_def resync_def removeMapping_def removeMappingMeetingId_def
  getExternalUserID_def truthy_def Let_def

lemmas eval_defs = model_defs for_in_def array_index_def digit_def numeric_def
  inherited_def top_def jsnum_eq_iff user_id_eq_iff num.rep_eq plus_one.rep_eq
  uid.rep_eq less_eq_jsnum.rep_eq less_jsnum.rep_eq

subsection \<open>The value returned by removeMapping\<close>

text \<open>
  The destroys of a scan for the internalUserID \<open>i\<close> run to their end: whatever the
  replies are, the entry of \<open>i\<close> is deleted from the index.
\<close>

lemma removes_run:
  assumes "pending t = map (\<lambda>m. Srem m cb) xs @ map (\<lambda>m. Del m cb) ys"
    and "\<forall>m \<in> set (xs @ ys). internalUserID m = i"
    and "length rs = 2 * length xs + length ys"
  shows "db (run (map Reply rs) t) = (if xs @ ys = [] then db t else AList.delete i (db t)) \<and>
         pending (run (map Reply rs) t) = []"
  using assms
proof (induction rs arbitrary: t xs ys)
  case Nil
  then show ?case by (simp add: run_def)
next
  case (Cons r rs)
  let ?t = "step (Reply r) t"
  show ?case
  proof (cases xs)
    case (Cons x xs')
    have p: "pending t = Srem x cb # (map (\<lambda>m. Srem m cb) xs' @ map (\<lambda>m. Del m cb) ys)"
      using Cons.prems(1) Cons by simp
    have "pending ?t = map (\<lambda>m. Srem m cb) xs' @ map (\<lambda>m. Del m cb) (ys @ [x])"
      using srem_reply(1) [OF p] by simp
    moreover have "\<forall>m \<in> set (xs' @ (ys @ [x])). internalUserID m = i"
      using Cons.prems(2) Cons by auto
    moreover have "length rs = 2 * length xs' + length (ys @ [x])"
      using Cons.prems(3) Cons by simp
    ultimately have "db (run (map Reply rs) ?t) =
          (if xs' @ (ys @ [x]) = [] then db ?t else AList.delete i (db ?t)) \<and>
         pending (run (map Reply rs) ?t) = []"
      by (rule Cons.IH)
    then show ?thesis using srem_reply(3) [OF p, of r] Cons by (simp add: run_Cons)
  next
    case Nil
    with Cons.prems(3) obtain y ys' where ys: "ys = y # ys'" by (cases ys) simp_all
    have p: "pending t = Del y cb # map (\<lambda>m. Del m cb) ys'"
      using Cons.prems(1) Nil ys by simp
    have y: "internalUserID y = i" using Cons.prems(2) ys by simp
    have "pending ?t = map (\<lambda>m. Srem m cb) [] @ map (\<lambda>m. Del m cb) ys'"
      using del_reply_db(1) [OF p] by simp
    moreover have "\<forall>m \<in> set ([] @ ys'). internalUserID m = i"
      using Cons.prems(2) ys by simp
    moreover have "length rs = 2 * length ([]::UserMapping list) + length ys'"
      using Cons.prems(3) Nil ys by simp
    ultimately have "db (run (map Reply rs) ?t) =
          (if [] @ ys' = [] then db ?t else AList.delete i (db ?t)) \<and>
         pending (run (map Reply rs) ?t) = []"
      by (rule Cons.IH)
    then show ?thesis using del_reply_db(2) [OF p, of r] Nil ys y
      by (simp add: run_Cons delete_idem)
  qed
qed

text \<open>In a well-formed index, a scan without a match means that the index has no entry for the key.\<close>

lemma no_match_no_key:
  assumes "db_ok s" and "filter (\<lambda>m. internalUserID m = i) (allSync s) = []"
  shows "AList.delete i (db s) = db s"
proof -
  have "i \<notin> fst ` set (db s)"
  proof
    assume "i \<in> fst ` set (db s)"
    then obtain m where m: "(i, m) \<in> set (db s)" by auto
    with assms(1) have "internalUserID m = i" by (auto simp: db_ok_def)
    moreover from m have "m \<in> set (allSync s)" by (force simp: allSync_set)
    ultimately have "m \<in> set (filter (\<lambda>m. internalUserID m = i) (allSync s))" by simp
    with assms(2) show False by simp
  qed
  then show ?thesis by simp
qed

text \<open>
  C3, as the code has it: \<open>removeMapping\<close> returns the array built by its loop, which
  holds one \<open>undefined\<close> for every entry of the index, matching or not (\<open>destroy\<close>
  returns nothing). It returns no count. It sends one \<open>srem\<close> for every matching entry
  and leaves the index as it is; when the call finds no command pending and a well-formed
  index, and the two replies of each of its destroys have arrived, whatever they are, the
  index has lost the entry of that internalUserID and nothing else.
\<close>

theorem removeMapping_result:
  "fst (removeMapping i c s) = Array (replicate (length (db s)) Undefined) \<and>
   snd (removeMapping i c s) =
     s\<lparr>pending := pending s @
          map (\<lambda>m. Srem m (DestroyRemoved i (last (allSync s)) c))
            (filter (\<lambda>m. internalUserID m = i) (allSync s))\<rparr> \<and>
   (pending s = [] \<and> db_ok s \<and>
    length rs = 2 * length (filter (\<lambda>m. internalUserID m = i) (allSync s)) \<longrightarrow>
      db (run (RemoveMapping i c # map Reply rs) s) = AList.delete i (db s) \<and>
      getExternalUserID i (run (RemoveMapping i c # map Reply rs) s) = None \<and>
      pending (run (RemoveMapping i c # map Reply rs) s) = [])"
proof -
  let ?cb = "DestroyRemoved i (last (allSync s)) c"
  let ?xs = "filter (\<lambda>m. internalUserID m = i) (allSync s)"
  let ?t = "snd (removeMapping i c s)"
  have ret: "fst (removeMapping i c s) = Array (replicate (length (db s)) Undefined)"
    and t: "?t = s\<lparr>pending := pending s @ map (\<lambda>m. Srem m ?cb) ?xs\<rparr>"
    by (simp_all add: removeMapping_def Let_def scan_sends allSync_length [symmetric]
        map_replicate_const)
  have "db (run (RemoveMapping i c # map Reply rs) s) = AList.delete i (db s) \<and>
      getExternalUserID i (run (RemoveMapping i c # map Reply rs) s) = None \<and>
      pending (run (RemoveMapping i c # map Reply rs) s) = []"
    if quiet: "pending s = []" and ok: "db_ok s" and len: "length rs = 2 * length ?xs"
  proof -
    have "db (run (map Reply rs) ?t) =
            (if ?xs @ [] = [] then db ?t else AList.delete i (db ?t)) \<and>
          pending (run (map Reply rs) ?t) = []"
      using quiet len by (intro removes_run [where cb = ?cb]) (simp_all add: t)
    moreover have "db ?t = db s" by (simp add: t)
    ultimately have "db (run (map Reply rs) ?t) = AList.delete i (db s)"
      and "pending (run (map Reply rs) ?t) = []"
      using no_match_no_key [OF ok] by (simp_all split: if_splits)
    then show ?thesis
      by (simp add: run_Cons getExternalUserID_def delete_conv')
  qed
  with ret t show ?thesis by blast
qed

theorem removeMapping_result_witness:
  "pending (run [AddMapping (uid ''u1'') ''e1'' ''m1'' None, Reply Ack, Reply Ack,
                 AddMapping (uid ''u2'') ''e2'' ''m1'' None, Reply Ack, Reply Ack]
             (boot empty_store)) = [] \<and>
   db_ok (run [AddMapping (uid ''u1'') ''e1'' ''m1'' None, Reply Ack, Reply Ack,
               AddMapping (uid ''u2'') ''e2'' ''m1'' None, Reply Ack, Reply Ack]
           (boot empty_store)) \<and>
   fst (removeMapping (uid ''u1'') None
     (run [AddMapping (uid ''u1'') ''e1'' ''m1'' None, Reply Ack, Reply Ack,
           AddMapping (uid ''u2'') ''e2'' ''m1'' None, Reply Ack, Reply Ack]
        (boot empty_store))) = Array [Undefined, Undefined] \<and>
   map fst (db (run (RemoveMapping (uid ''u1'') None # map Reply [Ack, Failed ''timeout''])
     (run [AddMapping (uid ''u1'') ''e1'' ''m1'' None, Reply Ack, Reply Ack,
           AddMapping (uid ''u2'') ''e2'' ''m1'' None, Reply Ack, Reply Ack]
        (boot empty_store)))) = [uid ''u2'']"
  using removeMapping_result [of "uid ''u1''" None
      "run [AddMapping (uid ''u1'') ''e1'' ''m1'' None, Reply Ack, Reply Ack,
            AddMapping (uid ''u2'') ''e2'' ''m1'' None, Reply Ack, Reply Ack]
         (boot empty_store)" "[Ack, Failed ''timeout'']"]
  by (simp add: db_ok_def eval_defs)

text \<open>
  C3 as stated fails: with the single mapping of \<open>u1\<close> in the index, \<open>removeMapping\<close>
  of \<open>u1\<close> returns an array holding one \<open>undefined\<close>, not the number 1.
\<close>

theorem removeMapping_result_counterexample:
  "fst (removeMapping (uid ''u1'') None
          (run [AddMapping (uid ''u1'') ''e1'' ''m1'' None, Reply Ack, Reply Ack] (boot empty_store)))
     = Array [Undefined] \<and>
   fst (removeMapping (uid ''u1'') None
          (run [AddMapping (uid ''u1'') ''e1'' ''m1'' None, Reply Ack, Reply Ack] (boot empty_store)))
     \<noteq> Number (num 1)"
  by (simp add: eval_defs)

subsection \<open>removeMapping without a match\<close>

text \<open>
  C5, at the input where the code departs from it: the index holds a mapping for \<open>u1\<close>
  and none for \<open>u2\<close>, and no command is pending. \<open>removeMapping\<close> of \<open>u2\<close> with the
  function 0 as callback returns its array and leaves the state as it was: it sends no
  command and calls nothing, and no pending handler is left that could call the callback
  later.
\<close>

theorem removeMapping_no_match:
  "removeMapping (uid ''u2'') (Some 0)
     (run [AddMapping (uid ''u1'') ''e1'' ''m1'' None, Reply Ack, Reply Ack] (boot empty_store)) =
   (Array [Undefined],
    run [AddMapping (uid ''u1'') ''e1'' ''m1'' None, Reply Ack, Reply Ack] (boot empty_store)) \<and>
   pending (run [AddMapping (uid ''u1'') ''e1'' ''m1'' None, Reply Ack, Reply Ack] (boot empty_store)) = [] \<and>
   calls_of 0 (events
     (run [AddMapping (uid ''u1'') ''e1'' ''m1'' None, Reply Ack, Reply Ack] (boot empty_store))) = []"
  by (simp add: eval_defs)

subsection \<open>The index holds one mapping for each internalUserID\<close>

lemma set_update_subset: "set (AList.update k v al) \<subseteq> insert (k, v) (set al)"
  by (induction al) auto

lemma set_delete_subset: "set (AList.delete k al) \<subseteq> set al"
  by (induction al) auto

lemma db_ok_update:
  "db_ok s \<Longrightarrow> db_ok (s\<lparr>db := AList.update (internalUserID m) m (db s)\<rparr>)"
  unfolding db_ok_def
  using set_update_subset [of "internalUserID m" m "db s"]
  by (auto simp: distinct_update)

lemma db_ok_delete:
  "db_ok s \<Longrightarrow> db_ok (s\<lparr>db := AList.delete k (db s)\<rparr>)"
  unfolding db_ok_def
  using set_delete_subset [of k "db s"]
  by (auto simp: distinct_delete)

lemma db_ok_step: "db_ok s \<Longrightarrow> db_ok (step a s)"
proof -
  assume ok: "db_ok s"
  have upd: "distinct (map fst (AList.update (internalUserID m) m (db s))) \<and>
        (\<forall>(k, x) \<in> set (AList.update (internalUserID m) m (db s)). internalUserID x = k)" for m
    using db_ok_update [OF ok, of m] by (simp add: db_ok_def)
  have del: "distinct (map fst (AList.delete k (db s))) \<and>
        (\<forall>(k, x) \<in> set (AList.delete k (db s)). internalUserID x = k)" for k
    using db_ok_delete [OF ok, of k] by (simp add: db_ok_def)
  show ?thesis
    using ok upd del unfolding db_ok_def db_step
    by (simp split: action.splits list.splits request.splits)
qed

text \<open>
  C7: whatever the relay calls (\<open>addMapping\<close>, \<open>removeMapping\<close>,
  \<open>removeMappingMeetingId\<close>, \<open>resync\<close>, \<open>save\<close>, \<open>destroy\<close>) and whatever replies
  arrive, the index keeps at most one mapping for each internalUserID: its keys are
  distinct and every key holds a mapping whose internalUserID is that key.
\<close>

theorem index_keyed_by_internalUserID: "db_ok s \<Longrightarrow> db_ok (run as s)"
  unfolding run_def by (induction as arbitrary: s) (simp_all add: db_ok_step)

theorem index_keyed_by_internalUserID_witness:
  "db_ok (boot empty_store) \<and>
   db_ok (run [AddMapping (uid ''u1'') ''e1'' ''m1'' None, Reply Ack, Reply Ack,
               AddMapping (uid ''u1'') ''e2'' ''m1'' None, AddMapping (uid ''u3'') ''e3'' ''m1'' None,
               Reply Ack, Reply Ack, Reply Ack, Reply Ack] (boot empty_store)) \<and>
   map fst (db (run [AddMapping (uid ''u1'') ''e1'' ''m1'' None, Reply Ack, Reply Ack,
               AddMapping (uid ''u1'') ''e2'' ''m1'' None, AddMapping (uid ''u3'') ''e3'' ''m1'' None,
               Reply Ack, Reply Ack, Reply Ack, Reply Ack] (boot empty_store))) = [uid ''u1'', uid ''u3'']"
  using index_keyed_by_internalUserID [of "boot empty_store"
      "[AddMapping (uid ''u1'') ''e1'' ''m1'' None, Reply Ack, Reply Ack,
        AddMapping (uid ''u1'') ''e2'' ''m1'' None, AddMapping (uid ''u3'') ''e3'' ''m1'' None,
        Reply Ack, Reply Ack, Reply Ack, Reply Ack]"]
  by (simp add: db_ok_def eval_defs)

subsection \<open>Calls without a callback\<close>

text \<open>
  C10: \<open>removeMappingMeetingId\<close> ends its scan with an unguarded \<open>callback()\<close>. Without
  a function as callback it throws a TypeError, after the scan has sent its commands; with
  one it returns. The calls that end \<open>save\<close> and \<open>destroy\<close>, and those in the closures of
  \<open>addMapping\<close> and \<open>removeMapping\<close>, are guarded: whatever the callback is, a missing
  one included, the handlers of the four commands return without a fault.
\<close>

theorem missing_callback:
  "fst (removeMappingMeetingId mid None s) = Inl TypeError \<and>
   snd (removeMappingMeetingId mid None s) =
     s\<lparr>pending := pending s @
          map (\<lambda>m. Srem m (DestroyRemovedMeeting (last (allSync s)) None))
            (filter (\<lambda>m. meetingId m = mid) (allSync s))\<rparr> \<and>
   fst (removeMappingMeetingId mid (Some f) s) = Inr () \<and>
   fst (resume (Hmset m cb) r s) = Inr () \<and>
   fst (resume (Sadd m cb) r s) = Inr () \<and>
   fst (resume (Srem m dcb) r s) = Inr () \<and>
   fst (resume (Del m dcb) r s) = Inr ()"
  by (simp add: removeMappingMeetingId_def call_fn_def scan_sends Let_def)

subsection \<open>The allocator\<close>

lemma plus_one_grows: "plus_one n < top \<Longrightarrow> n < plus_one n"
  unfolding top_def by transfer (simp split: if_splits)

lemma nextID_step_mono: "nextID s \<le> nextID (step a s)"
  using plus_one_upper [of "nextID s"]
  by (auto simp: nextID_step intro: order_trans [OF _ plus_one_upper]
      split: action.splits list.splits request.splits save_cb.splits)

lemma nextID_run_mono: "nextID s \<le> nextID (run as s)"
proof (induction as arbitrary: s)
  case Nil
  show ?case by (simp add: run_def)
next
  case (Cons a as)
  have "nextID s \<le> nextID (step a s)" by (rule nextID_step_mono)
  also have "\<dots> \<le> nextID (run as (step a s))" by (rule Cons.IH)
  finally show ?case by (simp add: run_Cons)
qed

lemma allocs_lower: "i \<in> set (allocs as s) \<Longrightarrow> nextID s \<le> i"
proof (induction as arbitrary: s)
  case Nil
  then show ?case by simp
next
  case (Cons a as)
  have mono: "nextID s \<le> nextID (step a s)" by (rule nextID_step_mono)
  from Cons.prems consider "i = nextID s" | "i \<in> set (allocs as (step a s))"
    by (auto simp: allocs_Cons split: action.splits)
  then show ?case
  proof cases
    case 1
    then show ?thesis by simp
  next
    case 2
    then have "nextID (step a s) \<le> i" by (rule Cons.IH)
    with mono show ?thesis by simp
  qed
qed

lemma allocs_increasing: "nextID (run as s) < top \<Longrightarrow> sorted_wrt (<) (allocs as s)"
proof (induction as arbitrary: s)
  case Nil
  show ?case by simp
next
  case (Cons a as)
  from Cons.prems have bound: "nextID (run as (step a s)) < top" by (simp add: run_Cons)
  then have tail: "sorted_wrt (<) (allocs as (step a s))" by (rule Cons.IH)
  show ?case
  proof (cases a)
    case (AddMapping i e mid c)
    have stepped: "nextID (step a s) = plus_one (nextID s)"
      using nextID_step [of a s] by (simp add: AddMapping)
    have "plus_one (nextID s) \<le> nextID (run as (step a s))"
      using nextID_run_mono [of "step a s" as] by (simp only: stepped)
    with bound have "plus_one (nextID s) < top" by simp
    then have grows: "nextID s < plus_one (nextID s)" by (rule plus_one_grows)
    have "nextID s < j" if "j \<in> set (allocs as (step a s))" for j
      using allocs_lower [OF that] grows by (simp only: stepped)
    then show ?thesis using tail by (simp add: allocs_Cons AddMapping)
  qed (insert tail, simp_all)
qed

lemma recovered_now:
  assumes "m \<in> set (case a of
        Reply r \<Rightarrow> (case pending s of Sadd m (SaveResynced rest c) # qs \<Rightarrow> [m] | _ \<Rightarrow> [])
      | _ \<Rightarrow> [])"
    and "nextID (step a s) < top"
  shows "id' m < nextID (step a s)"
  using assms plus_one_grows [of "id' m"]
  by (auto simp: nextID_step split: action.splits list.splits request.splits save_cb.splits
      if_splits)

lemma recovered_below:
  "m \<in> set (recovered as s) \<Longrightarrow> nextID (run as s) < top \<Longrightarrow> id' m < nextID (run as s)"
proof (induction as arbitrary: s)
  case Nil
  then show ?case by simp
next
  case (Cons a as)
  from Cons.prems(2) have bound: "nextID (run as (step a s)) < top" by (simp add: run_Cons)
  from Cons.prems(1) have "m \<in> set (case a of
        Reply r \<Rightarrow> (case pending s of Sadd m (SaveResynced rest c) # qs \<Rightarrow> [m] | _ \<Rightarrow> [])
      | _ \<Rightarrow> []) \<or> m \<in> set (recovered as (step a s))"
    by (simp add: recovered_Cons)
  then show ?case
  proof
    assume now: "m \<in> set (case a of
        Reply r \<Rightarrow> (case pending s of Sadd m (SaveResynced rest c) # qs \<Rightarrow> [m] | _ \<Rightarrow> [])
      | _ \<Rightarrow> [])"
    have later: "nextID (step a s) \<le> nextID (run as (step a s))" by (rule nextID_run_mono)
    with bound have "nextID (step a s) < top" by simp
    with now have "id' m < nextID (step a s)" by (rule recovered_now)
    with later show ?thesis by (simp add: run_Cons)
  next
    assume "m \<in> set (recovered as (step a s))"
    then show ?thesis using Cons.IH bound by (simp add: run_Cons)
  qed
qed

text \<open>
  C6, as the code has it: take a run after which the counter is still below \<open>2^53\<close>. The
  ids that \<open>addMapping\<close> has handed out in it are strictly increasing. Every mapping that
  a \<open>resync\<close> has rebuilt in it has an id below the counter (\<open>nextID\<close> is at least that id
  plus 1), and every id that \<open>addMapping\<close> hands out afterwards is greater than the id of
  every rebuilt mapping.
\<close>

theorem allocator_increasing:
  assumes "nextID (run as s) < top"
  shows "sorted_wrt (<) (allocs as s) \<and>
   (\<forall>m \<in> set (recovered as s).
      int_of (id' m) + 1 \<le> int_of (nextID (run as s)) \<and>
      (\<forall>i \<in> set (allocs bs (run as s)). id' m < i))"
proof (intro conjI ballI)
  show "sorted_wrt (<) (allocs as s)" using assms by (rule allocs_increasing)
next
  fix m assume "m \<in> set (recovered as s)"
  then have "id' m < nextID (run as s)" using assms by (rule recovered_below)
  then show "int_of (id' m) + 1 \<le> int_of (nextID (run as s))"
    by (simp add: less_jsnum.rep_eq)
next
  fix m i assume m: "m \<in> set (recovered as s)" and i: "i \<in> set (allocs bs (run as s))"
  have "id' m < nextID (run as s)" using m assms by (rule recovered_below)
  also have "\<dots> \<le> i" using i by (rule allocs_lower)
  finally show "id' m < i" .
qed

theorem allocator_increasing_witness:
  "nextID (run [AddMapping (uid ''u1'') ''e1'' ''m1'' None, Resync None, Reply Ack, Reply Ack,
                Reply Ack, Reply Ack, Reply Ack, Reply Ack] (boot one_record)) = num 6 \<and>
   num 6 < top \<and>
   allocs [AddMapping (uid ''u1'') ''e1'' ''m1'' None, Resync None, Reply Ack, Reply Ack,
           Reply Ack, Reply Ack, Reply Ack, Reply Ack] (boot one_record) = [num 1] \<and>
   recovered [AddMapping (uid ''u1'') ''e1'' ''m1'' None, Resync None, Reply Ack, Reply Ack,
              Reply Ack, Reply Ack, Reply Ack, Reply Ack] (boot one_record) =
     [\<lparr>id' = num 5, internalUserID = uid ''u5'', externalUserID = ''e5'', meetingId = ''m1''\<rparr>] \<and>
   allocs [AddMapping (uid ''u6'') ''e6'' ''m1'' None, Reply Ack,
           AddMapping (uid ''u7'') ''e7'' ''m1'' None]
     (run [AddMapping (uid ''u1'') ''e1'' ''m1'' None, Resync None, Reply Ack, Reply Ack,
           Reply Ack, Reply Ack, Reply Ack, Reply Ack] (boot one_record)) = [num 6, num 7]"
  using allocator_increasing [of
      "[AddMapping (uid ''u1'') ''e1'' ''m1'' None, Resync None, Reply Ack, Reply Ack,
        Reply Ack, Reply Ack, Reply Ack, Reply Ack]"
      "boot one_record"
      "[AddMapping (uid ''u6'') ''e6'' ''m1'' None, Reply Ack,
        AddMapping (uid ''u7'') ''e7'' ''m1'' None]"]
  by (simp add: eval_defs one_record_def)

text \<open>
  C6 as stated fails: the store holds a record with the id \<open>2^53\<close>. The \<open>resync\<close>
  rebuilds it and sets the counter to \<open>2^53 + 1\<close>, which is \<open>2^53\<close> again; the next two
  \<open>addMapping\<close> calls both hand out \<open>2^53\<close>, the id of the rebuilt record.
\<close>

theorem allocator_increasing_counterexample:
  "recovered [Resync None, Reply Ack, Reply Ack, Reply Ack, Reply Ack] (boot top_record) =
     [\<lparr>id' = top, internalUserID = uid ''u5'', externalUserID = ''e5'', meetingId = ''m1''\<rparr>] \<and>
   nextID (run [Resync None, Reply Ack, Reply Ack, Reply Ack, Reply Ack] (boot top_record)) = top \<and>
   allocs [AddMapping (uid ''u6'') ''e6'' ''m1'' None, Reply Ack,
           AddMapping (uid ''u7'') ''e7'' ''m1'' None]
     (run [Resync None, Reply Ack, Reply Ack, Reply Ack, Reply Ack] (boot top_record)) = [top, top]"
  by (simp add: eval_defs top_record_def)

subsection \<open>addMapping when the store fails\<close>

text \<open>
  The two handlers of \<open>save\<close>, at any time: whatever the reply to the \<open>hmset\<close> is, the
  \<open>sadd\<close> is sent, and whatever the reply to the \<open>sadd\<close> is, the mapping is in the
  index afterwards.
\<close>

lemma hmset_reply:
  assumes "pending t = Hmset m cb # qs"
  shows "pending (step (Reply r) t) = qs @ [Sadd m cb]"
    and "db (step (Reply r) t) = db t"
    and "events (step (Reply r) t) =
           (case r of
              Ack \<Rightarrow> events t
            | Failed x \<Rightarrow> events t @ [LogError ''[UserMapping] error saving mapping to redis:'' x])"
  using assms by (cases r; simp add: deliver_def log_error_def issue_def)+

lemma sadd_reply:
  assumes "pending t = Sadd m cb # qs"
  shows "map_of (db (step (Reply r) t)) (internalUserID m) = Some m"
    and "getExternalUserID (internalUserID m) (step (Reply r) t) = Some (externalUserID m)"
  using assms db_step [of "Reply r" t] by (simp_all add: getExternalUserID_def update_conv')



subsection \<open>Last write wins\<close>

lemma eventual_add:
  "eventual (addMapping i e mid c s) =
     AList.update i \<lparr>id' = nextID s, internalUserID = i, externalUserID = e, meetingId = mid\<rparr>
       (eventual s)"
  by (simp add: eventual_def addMapping_def save_def arriving_def)

lemma added_deliver:
  assumes "\<forall>q \<in> set (pending s). added q"
  shows "eventual (snd (deliver r s)) = eventual s \<and> (\<forall>q \<in> set (pending (snd (deliver r s))). added q)"
proof (cases "pending s")
  case Nil
  then show ?thesis using assms by (simp add: deliver_def)
next
  case (Cons q qs)
  with assms have q: "added q" and qs: "\<forall>q \<in> set qs. added q" by simp_all
  from q show ?thesis
  proof (cases q rule: added.cases)
    case (1 m c)
    then show ?thesis using Cons qs
      by (simp add: deliver_def eventual_def arriving_def)
  next
    case (2 m c)
    then show ?thesis using Cons qs
      by (simp add: deliver_def eventual_def arriving_def Let_def)
  qed simp_all
qed

lemma added_step:
  assumes "adding a" "\<forall>q \<in> set (pending s). added q"
  shows "(\<forall>q \<in> set (pending (step a s)). added q) \<and>
         eventual (step a s) =
           (case a of
              AddMapping i e mid c \<Rightarrow>
                AList.update i \<lparr>id' = nextID s, internalUserID = i, externalUserID = e, meetingId = mid\<rparr>
                  (eventual s)
            | _ \<Rightarrow> eventual s)"
  using assms(1)
proof (cases a rule: adding.cases)
  case (1 i e mid c)
  then show ?thesis using assms(2) by (simp add: eventual_add) (simp add: addMapping_def save_def)
next
  case (2 r)
  then show ?thesis using added_deliver [OF assms(2), of r] by simp
qed simp_all

lemma latest_eventual:
  assumes "\<forall>a \<in> set as. adding a" "\<forall>q \<in> set (pending s). added q"
  shows "map_option externalUserID (map_of (eventual (run as s)) u) =
           (case latest as u of
              Some e \<Rightarrow> Some e
            | None \<Rightarrow> map_option externalUserID (map_of (eventual s) u))"
  using assms
proof (induction as arbitrary: s)
  case Nil
  show ?case by (simp add: run_def)
next
  case (Cons a as)
  then have a: "adding a" and as: "\<forall>a \<in> set as. adding a" by simp_all
  note st = added_step [OF a Cons.prems(2)]
  have IH: "map_option externalUserID (map_of (eventual (run as (step a s))) u) =
           (case latest as u of
              Some e \<Rightarrow> Some e
            | None \<Rightarrow> map_option externalUserID (map_of (eventual (step a s)) u))"
    using Cons.IH [OF as] st by blast
  from a show ?case
  proof (cases a rule: adding.cases)
    case (1 i e mid c)
    then show ?thesis using IH st
      by (auto simp: run_Cons update_conv' split: option.splits)
  next
    case (2 r)
    then show ?thesis using IH st by (simp add: run_Cons split: option.splits)
  qed simp_all
qed

text \<open>
  When \<open>addMapping\<close> returns, it has only sent its first command: the index, and with
  it every lookup, is as before until the replies have arrived.
\<close>

lemma addMapping_returns:
  "db (addMapping i e mid c s) = db s \<and>
   getExternalUserID u (addMapping i e mid c s) = getExternalUserID u s \<and>
   pending (addMapping i e mid c s) =
     pending s @
     [Hmset \<lparr>id' = nextID s, internalUserID = i, externalUserID = e, meetingId = mid\<rparr>
        (SaveAdded c)]"
  by (simp add: addMapping_def save_def getExternalUserID_def)

lemma getExternalUserID_alt:
  "getExternalUserID u s = map_option externalUserID (map_of (db s) u)"
  by (simp add: getExternalUserID_def split: option.splits)

text \<open>
  C1, as the code has it: take any run of \<open>addMapping\<close> calls, with the replies of the
  store arriving at any points in between and with any outcome, that starts and ends with
  no command pending, so that the replies to the two commands of every call have arrived.
  A lookup afterwards returns the externalUserID of the most recent call for that
  internalUserID, and what it returned before the run if the run has no call for it.
\<close>

theorem lookup_latest:
  assumes "\<forall>a \<in> set as. adding a" "pending s = []" "pending (run as s) = []"
  shows "getExternalUserID u (run as s) =
           (case latest as u of Some e \<Rightarrow> Some e | None \<Rightarrow> getExternalUserID u s)"
proof -
  have "map_option externalUserID (map_of (eventual (run as s)) u) =
           (case latest as u of
              Some e \<Rightarrow> Some e
            | None \<Rightarrow> map_option externalUserID (map_of (eventual s) u))"
    using assms(1,2) by (intro latest_eventual) simp_all
  moreover have "eventual (run as s) = db (run as s)" "eventual s = db s"
    using assms(2,3) by (simp_all add: eventual_def arriving_def)
  ultimately show ?thesis
    by (simp add: getExternalUserID_alt split: option.splits)
qed

theorem lookup_latest_witness:
  "map adding [AddMapping (uid ''u1'') ''e1'' ''m1'' None, AddMapping (uid ''u2'') ''e2'' ''m1'' None,
               Reply Ack, AddMapping (uid ''u1'') ''e3'' ''m2'' None, Reply (Failed ''timeout''),
               Reply Ack, Reply Ack, Reply Ack, Reply Ack] =
     [True, True, True, True, True, True, True, True, True] \<and>
   pending (boot empty_store) = [] \<and>
   pending (run [AddMapping (uid ''u1'') ''e1'' ''m1'' None, AddMapping (uid ''u2'') ''e2'' ''m1'' None,
                 Reply Ack, AddMapping (uid ''u1'') ''e3'' ''m2'' None, Reply (Failed ''timeout''),
                 Reply Ack, Reply Ack, Reply Ack, Reply Ack] (boot empty_store)) = [] \<and>
   getExternalUserID (uid ''u1'')
     (run [AddMapping (uid ''u1'') ''e1'' ''m1'' None, AddMapping (uid ''u2'') ''e2'' ''m1'' None,
           Reply Ack, AddMapping (uid ''u1'') ''e3'' ''m2'' None, Reply (Failed ''timeout''),
           Reply Ack, Reply Ack, Reply Ack, Reply Ack] (boot empty_store)) = Some ''e3''"
  using lookup_latest [of "[AddMapping (uid ''u1'') ''e1'' ''m1'' None, AddMapping (uid ''u2'') ''e2'' ''m1'' None,
                Reply Ack, AddMapping (uid ''u1'') ''e3'' ''m2'' None, Reply (Failed ''timeout''),
                Reply Ack, Reply Ack, Reply Ack, Reply Ack]" "boot empty_store" "uid ''u1''"]
  by (simp add: eval_defs)

text \<open>
  C1 as stated fails: a lookup that follows the call at once, before the replies, does not
  see the new mapping. After the first call for \<open>u1\<close> it finds nothing; after a second
  call for \<open>u1\<close>, made when the first is complete, it still returns \<open>e1\<close> while the
  most recent call gave \<open>e2\<close>.
\<close>

theorem lookup_latest_counterexample:
  "latest [AddMapping (uid ''u1'') ''e1'' ''m1'' None] (uid ''u1'') = Some ''e1'' \<and>
   getExternalUserID (uid ''u1'')
     (run [AddMapping (uid ''u1'') ''e1'' ''m1'' None] (boot empty_store)) = None \<and>
   latest [AddMapping (uid ''u1'') ''e1'' ''m1'' None, Reply Ack, Reply Ack,
           AddMapping (uid ''u1'') ''e2'' ''m1'' None] (uid ''u1'') = Some ''e2'' \<and>
   getExternalUserID (uid ''u1'')
     (run [AddMapping (uid ''u1'') ''e1'' ''m1'' None, Reply Ack, Reply Ack,
           AddMapping (uid ''u1'') ''e2'' ''m1'' None] (boot empty_store)) = Some ''e1''"
  by (simp add: eval_defs)

subsection \<open>The callback of removeMappingMeetingId\<close>

lemma del_reply:
  assumes "pending t = Del m (DestroyRemovedMeeting shown (Some f)) # qs"
  shows "pending (step (Reply r) t) = qs"
    and "calls_of f (events (step (Reply r) t)) =
           calls_of f (events t) @ [[error_of r, Bool (truthy (db t) (internalUserID m))]]"
  using assms
  by (simp_all add: deliver_def log_error_def log_info_def guarded_def call_fn_def
      calls_of_append Let_def split: reply.splits)

text \<open>
  The destroys of a scan run to their end: the replies to the \<open>srem\<close> commands send the
  \<open>del\<close> commands, and the reply to each \<open>del\<close> calls the callback.
\<close>

lemma destroys_complete:
  assumes "pending t =
             map (\<lambda>m. Srem m (DestroyRemovedMeeting shown (Some f))) xs @
             map (\<lambda>m. Del m (DestroyRemovedMeeting shown (Some f))) ys"
    and "length rs = 2 * length xs + length ys"
  shows "length (calls_of f (events (run (map Reply rs) t))) =
           length (calls_of f (events t)) + length xs + length ys \<and>
         pending (run (map Reply rs) t) = []"
  using assms
proof (induction rs arbitrary: t xs ys)
  case Nil
  then show ?case by (simp add: run_def)
next
  case (Cons r rs)
  show ?case
  proof (cases xs)
    case (Cons x xs')
    let ?t = "step (Reply r) t"
    have p: "pending t = Srem x (DestroyRemovedMeeting shown (Some f)) #
               (map (\<lambda>m. Srem m (DestroyRemovedMeeting shown (Some f))) xs' @
                map (\<lambda>m. Del m (DestroyRemovedMeeting shown (Some f))) ys)"
      using Cons.prems(1) Cons by simp
    have "pending ?t =
            map (\<lambda>m. Srem m (DestroyRemovedMeeting shown (Some f))) xs' @
            map (\<lambda>m. Del m (DestroyRemovedMeeting shown (Some f))) (ys @ [x])"
      using srem_reply(1) [OF p] by simp
    moreover have "length rs = 2 * length xs' + length (ys @ [x])"
      using Cons.prems(2) Cons by simp
    ultimately have "length (calls_of f (events (run (map Reply rs) ?t))) =
           length (calls_of f (events ?t)) + length xs' + length (ys @ [x]) \<and>
         pending (run (map Reply rs) ?t) = []"
      by (rule Cons.IH)
    then show ?thesis using srem_reply(2) [OF p, of f r] Cons by (simp add: run_Cons)
  next
    case Nil
    with Cons.prems(2) obtain y ys' where ys: "ys = y # ys'" by (cases ys) simp_all
    let ?t = "step (Reply r) t"
    have p: "pending t = Del y (DestroyRemovedMeeting shown (Some f)) #
               map (\<lambda>m. Del m (DestroyRemovedMeeting shown (Some f))) ys'"
      using Cons.prems(1) Nil ys by simp
    have "pending ?t =
            map (\<lambda>m. Srem m (DestroyRemovedMeeting shown (Some f))) [] @
            map (\<lambda>m. Del m (DestroyRemovedMeeting shown (Some f))) ys'"
      using del_reply(1) [OF p] by simp
    moreover have "length rs = 2 * length ([]::UserMapping list) + length ys'"
      using Cons.prems(2) Nil ys by simp
    ultimately have "length (calls_of f (events (run (map Reply rs) ?t))) =
           length (calls_of f (events ?t)) + length ([]::UserMapping list) + length ys' \<and>
         pending (run (map Reply rs) ?t) = []"
      by (rule Cons.IH)
    then show ?thesis using del_reply(2) [OF p, of r] Nil ys by (simp add: run_Cons)
  qed
qed

text \<open>
  C4, as the code has it: \<open>removeMappingMeetingId\<close> with a function as callback calls it
  once, without arguments, at the end of the scan, when the commands of the destroys have
  only been sent and no reply has arrived. The same function is also the callback of every
  destroy: started with no command pending and followed by the two replies of each
  matching entry, whatever they are, the call makes 1 + k calls of the callback in all,
  where k is the number of entries whose meetingId matches.
\<close>

theorem removeMappingMeetingId_signals:
  "fst (removeMappingMeetingId mid (Some f) s) = Inr () \<and>
   events (snd (removeMappingMeetingId mid (Some f) s)) = events s @ [Called f []] \<and>
   pending (snd (removeMappingMeetingId mid (Some f) s)) =
     pending s @
     map (\<lambda>m. Srem m (DestroyRemovedMeeting (last (allSync s)) (Some f)))
       (filter (\<lambda>m. meetingId m = mid) (allSync s)) \<and>
   (pending s = [] \<and> length rs = 2 * length (filter (\<lambda>m. meetingId m = mid) (allSync s)) \<longrightarrow>
      length (calls_of f (events (run (RemoveMappingMeetingId mid (Some f) # map Reply rs) s))) =
        length (calls_of f (events s)) + 1 + length (filter (\<lambda>m. meetingId m = mid) (allSync s)) \<and>
      pending (run (RemoveMappingMeetingId mid (Some f) # map Reply rs) s) = [])"
proof -
  let ?cb = "DestroyRemovedMeeting (last (allSync s)) (Some f)"
  let ?xs = "filter (\<lambda>m. meetingId m = mid) (allSync s)"
  let ?t = "snd (removeMappingMeetingId mid (Some f) s)"
  have t: "?t = s\<lparr>pending := pending s @ map (\<lambda>m. Srem m ?cb) ?xs,
                   events := events s @ [Called f []]\<rparr>"
    and ok: "fst (removeMappingMeetingId mid (Some f) s) = Inr ()"
    by (simp_all add: removeMappingMeetingId_def call_fn_def scan_sends Let_def)
  have "length (calls_of f (events (run (map Reply rs) ?t))) =
           length (calls_of f (events ?t)) + length ?xs + length ([]::UserMapping list) \<and>
         pending (run (map Reply rs) ?t) = []"
    if "pending s = []" "length rs = 2 * length ?xs"
    using that by (intro destroys_complete [where shown = "last (allSync s)"]) (simp_all add: t)
  then show ?thesis using ok by (simp add: t run_Cons calls_of_append)
qed

theorem removeMappingMeetingId_signals_witness:
  "pending (run [AddMapping (uid ''u1'') ''e1'' ''m1'' None, Reply Ack, Reply Ack] (boot empty_store)) = [] \<and>
   length [Ack, Ack] =
     2 * length (filter (\<lambda>m. meetingId m = ''m1'')
           (allSync (run [AddMapping (uid ''u1'') ''e1'' ''m1'' None, Reply Ack, Reply Ack] (boot empty_store)))) \<and>
   length (calls_of 7 (events
     (run (RemoveMappingMeetingId ''m1'' (Some 7) # map Reply [Ack, Ack])
        (run [AddMapping (uid ''u1'') ''e1'' ''m1'' None, Reply Ack, Reply Ack] (boot empty_store))))) = 2"
  using removeMappingMeetingId_signals [of "''m1''" 7
      "run [AddMapping (uid ''u1'') ''e1'' ''m1'' None, Reply Ack, Reply Ack] (boot empty_store)" "[Ack, Ack]"]
  by (simp add: eval_defs)

text \<open>
  C4 as stated fails: with one mapping of the meeting \<open>m1\<close> in the index,
  \<open>removeMappingMeetingId\<close> of \<open>m1\<close> calls its callback twice, at the end of the scan
  and again when the reply to the \<open>del\<close> of that mapping arrives.
\<close>

theorem removeMappingMeetingId_signals_counterexample:
  "calls_of 7 (events
     (run [AddMapping (uid ''u1'') ''e1'' ''m1'' None, Reply Ack, Reply Ack,
           RemoveMappingMeetingId ''m1'' (Some 7), Reply Ack, Reply Ack] (boot empty_store)))
   = [[], [Null, Bool True]]"
  by (simp add: eval_defs)

subsection \<open>Rebuilding the index from the store\<close>

lemma raise_all_simps [simp]:
  "raise_all [] n = n"
  "raise_all (m # ms) n = raise_all ms (if n \<le> id' m then plus_one (id' m) else n)"
  by (simp_all add: raise_all_def)

lemma raise_all_lower: "n \<le> raise_all ms n"
proof (induction ms arbitrary: n)
  case Nil
  show ?case by simp
next
  case (Cons m ms)
  have "n \<le> (if n \<le> id' m then plus_one (id' m) else n)"
    using plus_one_upper [of "id' m"] by auto
  also have "\<dots> \<le> raise_all ms (if n \<le> id' m then plus_one (id' m) else n)" by (rule Cons.IH)
  finally show ?case by simp
qed

lemma raise_all_above: "m \<in> set ms \<Longrightarrow> id' m < top \<Longrightarrow> id' m < raise_all ms n"
proof (induction ms arbitrary: n)
  case Nil
  then show ?case by simp
next
  case (Cons x ms)
  show ?case
  proof (cases "m = x")
    case True
    have "id' m < (if n \<le> id' x then plus_one (id' x) else n)"
      using True plus_one_above [OF Cons.prems(2)] by auto
    also have "\<dots> \<le> raise_all ms (if n \<le> id' x then plus_one (id' x) else n)"
      by (rule raise_all_lower)
    finally show ?thesis by simp
  next
    case False
    with Cons.prems have "m \<in> set ms" by simp
    then show ?thesis using Cons.IH Cons.prems(2) by simp
  qed
qed

lemma update_fresh: "k \<notin> fst ` set al \<Longrightarrow> AList.update k v al = al @ [(k, v)]"
  by (induction al) auto

lemma insert_all_fresh:
  assumes "distinct (map internalUserID ms)" "internalUserID ` set ms \<inter> fst ` set d = {}"
  shows "insert_all ms d = d @ map (\<lambda>m. (internalUserID m, m)) ms"
  using assms
proof (induction ms arbitrary: d)
  case Nil
  show ?case by simp
next
  case (Cons m ms)
  have fresh: "internalUserID m \<notin> fst ` set d" using Cons.prems(2) by auto
  have "insert_all ms (d @ [(internalUserID m, m)]) =
          (d @ [(internalUserID m, m)]) @ map (\<lambda>m. (internalUserID m, m)) ms"
    using Cons.prems by (intro Cons.IH) auto
  then show ?case by (simp add: update_fresh [OF fresh])
qed

lemma fetch_reply:
  assumes "pending t = [Hgetall (id' m) rest c]"
    and "hashes (store t) (id' m) = Some m"
  shows "step (Reply Ack) t = t\<lparr>pending := [Hmset m (SaveResynced rest c)]\<rparr>"
  using assms by (simp add: deliver_def save_def issue_def log_error_def)

lemma resave_fields_reply:
  assumes "pending t = [Hmset m (SaveResynced rest c)]"
    and "hashes (store t) (id' m) = Some m"
  shows "pending (step (Reply r) t) = [Sadd m (SaveResynced rest c)]"
    and "db (step (Reply r) t) = db t"
    and "nextID (step (Reply r) t) = nextID t"
    and "store (step (Reply r) t) = store t"
  using assms
  by (cases r; simp add: deliver_def issue_def log_error_def map_upd_triv)+

lemma resave_member_reply:
  assumes "pending t = [Sadd m (SaveResynced rest c)]"
    and "id' m \<in> set (members (store t))"
  shows "db (step (Reply r) t) = AList.update (internalUserID m) m (db t)"
    and "nextID (step (Reply r) t) = (if nextID t \<le> id' m then plus_one (id' m) else nextID t)"
    and "store (step (Reply r) t) = store t"
    and "pending (step (Reply r) t) = (case rest of [] \<Rightarrow> [] | j # js \<Rightarrow> [Hgetall j js c])"
proof -
  show "db (step (Reply r) t) = AList.update (internalUserID m) m (db t)"
    using db_step [of "Reply r" t] by (simp add: assms(1))
  show "nextID (step (Reply r) t) = (if nextID t \<le> id' m then plus_one (id' m) else nextID t)"
    using nextID_step [of "Reply r" t] by (simp add: assms(1))
  show "store (step (Reply r) t) = store t"
    using assms
    by (cases r; cases rest)
      (simp_all add: deliver_def series_def guarded_def call_fn_def log_info_def log_error_def
        issue_def Let_def split: option.splits)
  show "pending (step (Reply r) t) = (case rest of [] \<Rightarrow> [] | j # js \<Rightarrow> [Hgetall j js c])"
    using assms
    by (cases r; cases rest)
      (simp_all add: deliver_def series_def guarded_def call_fn_def log_info_def log_error_def
        issue_def Let_def split: option.splits)
qed

text \<open>
  One task of \<open>resync\<close> on a record that the store holds: the fetch succeeds, and
  whatever the replies to the two writes are, the record is in the index afterwards and
  the store is as before.
\<close>

lemma resync_task:
  assumes "pending t = [Hgetall (id' m) rest c]"
    and "hashes (store t) (id' m) = Some m" and "id' m \<in> set (members (store t))"
  shows "db (run [Reply Ack, Reply r1, Reply r2] t) = AList.update (internalUserID m) m (db t)"
    and "nextID (run [Reply Ack, Reply r1, Reply r2] t) =
           (if nextID t \<le> id' m then plus_one (id' m) else nextID t)"
    and "store (run [Reply Ack, Reply r1, Reply r2] t) = store t"
    and "pending (run [Reply Ack, Reply r1, Reply r2] t) =
           (case rest of [] \<Rightarrow> [] | j # js \<Rightarrow> [Hgetall j js c])"
proof -
  define t1 where "t1 = step (Reply Ack) t"
  define t2 where "t2 = step (Reply r1) t1"
  have t1: "pending t1 = [Hmset m (SaveResynced rest c)]" "db t1 = db t" "nextID t1 = nextID t"
    "store t1 = store t"
    unfolding t1_def fetch_reply [OF assms(1,2)] by simp_all
  have h1: "hashes (store t1) (id' m) = Some m" by (simp only: t1(4) assms(2))
  have t2: "pending t2 = [Sadd m (SaveResynced rest c)]" "db t2 = db t" "nextID t2 = nextID t"
    "store t2 = store t"
    unfolding t2_def using resave_fields_reply [OF t1(1) h1, of r1] by (simp_all only: t1)
  have m2: "id' m \<in> set (members (store t2))" by (simp only: t2(4) assms(3))
  have whole: "run [Reply Ack, Reply r1, Reply r2] t = step (Reply r2) t2"
    by (simp only: run_Cons run_Nil t1_def t2_def)
  show "db (run [Reply Ack, Reply r1, Reply r2] t) = AList.update (internalUserID m) m (db t)"
    unfolding whole resave_member_reply(1) [OF t2(1) m2] by (simp only: t2)
  show "nextID (run [Reply Ack, Reply r1, Reply r2] t) =
           (if nextID t \<le> id' m then plus_one (id' m) else nextID t)"
    unfolding whole resave_member_reply(2) [OF t2(1) m2] by (simp only: t2)
  show "store (run [Reply Ack, Reply r1, Reply r2] t) = store t"
    unfolding whole resave_member_reply(3) [OF t2(1) m2] by (simp only: t2)
  show "pending (run [Reply Ack, Reply r1, Reply r2] t) =
           (case rest of [] \<Rightarrow> [] | j # js \<Rightarrow> [Hgetall j js c])"
    unfolding whole by (rule resave_member_reply(4) [OF t2(1) m2])
qed

lemma resync_tasks:
  assumes "pending t = [Hgetall (id' m) (map id' ms) c]"
    and "\<forall>x \<in> set (m # ms). hashes (store t) (id' x) = Some x \<and> id' x \<in> set (members (store t))"
    and "length ws = length (m # ms)"
  shows "db (run (concat (map (\<lambda>w. [Reply Ack, Reply (fst w), Reply (snd w)]) ws)) t) =
           insert_all (m # ms) (db t) \<and>
         nextID (run (concat (map (\<lambda>w. [Reply Ack, Reply (fst w), Reply (snd w)]) ws)) t) =
           raise_all (m # ms) (nextID t) \<and>
         pending (run (concat (map (\<lambda>w. [Reply Ack, Reply (fst w), Reply (snd w)]) ws)) t) = []"
  using assms
proof (induction ms arbitrary: m t ws)
  case Nil
  then obtain w where ws: "ws = [w]" by (cases ws) simp_all
  from Nil show ?case
    using resync_task [of t m "[]" c "fst w" "snd w"] by (simp add: ws)
next
  case (Cons x ms)
  from Cons.prems(3) obtain w ws' where ws: "ws = w # ws'" and len: "length ws' = length (x # ms)"
    by (cases ws) simp_all
  let ?t = "run [Reply Ack, Reply (fst w), Reply (snd w)] t"
  have m: "hashes (store t) (id' m) = Some m" "id' m \<in> set (members (store t))"
    using Cons.prems(2) by simp_all
  have p: "pending t = [Hgetall (id' m) (id' x # map id' ms) c]"
    using Cons.prems(1) by simp
  note task = resync_task [OF p m, of "fst w" "snd w"]
  have "pending ?t = [Hgetall (id' x) (map id' ms) c]" using task(4) by simp
  moreover have "\<forall>y \<in> set (x # ms). hashes (store ?t) (id' y) = Some y \<and> id' y \<in> set (members (store ?t))"
    using Cons.prems(2) task(3) by simp
  ultimately have
    "db (run (concat (map (\<lambda>w. [Reply Ack, Reply (fst w), Reply (snd w)]) ws')) ?t) =
       insert_all (x # ms) (db ?t) \<and>
     nextID (run (concat (map (\<lambda>w. [Reply Ack, Reply (fst w), Reply (snd w)]) ws')) ?t) =
       raise_all (x # ms) (nextID ?t) \<and>
     pending (run (concat (map (\<lambda>w. [Reply Ack, Reply (fst w), Reply (snd w)]) ws')) ?t) = []"
    using len by (rule Cons.IH)
  moreover have "run (concat (map (\<lambda>w. [Reply Ack, Reply (fst w), Reply (snd w)]) ws)) t =
      run (concat (map (\<lambda>w. [Reply Ack, Reply (fst w), Reply (snd w)]) ws')) ?t"
    by (simp add: ws run_Cons run_Nil)
  ultimately show ?case using task(1,2) by simp
qed

lemma hashes_populated:
  "distinct (map id' rs) \<Longrightarrow> m \<in> set rs \<Longrightarrow> hashes (populated rs) (id' m) = Some m"
  by (simp add: populated_def comp_def image_iff)

lemma members_populated: "members (populated rs) = map id' rs"
  by (simp add: populated_def)

lemma resync_starts:
  "pending (run [Resync c, Reply Ack] (boot (populated (m # ms)))) = [Hgetall (id' m) (map id' ms) c]"
  "db (run [Resync c, Reply Ack] (boot (populated (m # ms)))) = []"
  "nextID (run [Resync c, Reply Ack] (boot (populated (m # ms)))) = num 1"
  "store (run [Resync c, Reply Ack] (boot (populated (m # ms)))) = populated (m # ms)"
  by (simp_all add: model_defs members_populated)

text \<open>
  C2, as the code has it: start a process on a store that holds exactly the records
  \<open>rs\<close>, with distinct ids below \<open>2^53\<close> and with distinct internalUserIDs, and run
  \<open>resync\<close>; its reads succeed, while the replies \<open>ws\<close> to the writes of its saves may be
  failures. When the resync is over, \<open>allSync\<close> returns exactly these records, each once
  and so as many as the set lists, and \<open>nextID\<close> is greater than the id of each of them.
\<close>

theorem resync_rebuilds:
  assumes "distinct (map id' rs)" and "distinct (map internalUserID rs)"
    and "\<forall>m \<in> set rs. id' m < top" and "length ws = length rs"
  shows "set (allSync (run (Resync c # reads_succeed ws) (boot (populated rs)))) = set rs \<and>
         length (allSync (run (Resync c # reads_succeed ws) (boot (populated rs)))) = length rs \<and>
         (\<forall>m \<in> set rs.
            id' m < nextID (run (Resync c # reads_succeed ws) (boot (populated rs)))) \<and>
         pending (run (Resync c # reads_succeed ws) (boot (populated rs))) = []"
proof (cases rs)
  case Nil
  then show ?thesis using assms(4)
    by (cases c) (simp_all add: model_defs reads_succeed_def populated_def)
next
  case (Cons m ms)
  let ?t = "run [Resync c, Reply Ack] (boot (populated (m # ms)))"
  let ?s = "run (concat (map (\<lambda>w. [Reply Ack, Reply (fst w), Reply (snd w)]) ws)) ?t"
  have run: "run (Resync c # reads_succeed ws) (boot (populated rs)) = ?s"
    unfolding Cons reads_succeed_def by (simp only: run_Cons run_Nil)
  have "\<forall>x \<in> set (m # ms). hashes (populated (m # ms)) (id' x) = Some x \<and>
          id' x \<in> set (members (populated (m # ms)))"
    using hashes_populated [OF assms(1) [unfolded Cons]] by (simp add: members_populated)
  then have "\<forall>x \<in> set (m # ms). hashes (store ?t) (id' x) = Some x \<and> id' x \<in> set (members (store ?t))"
    by (simp only: resync_starts)
  from resync_tasks [OF resync_starts(1) this assms(4) [unfolded Cons]]
  have s: "db ?s = insert_all rs []" "nextID ?s = raise_all rs (num 1)" "pending ?s = []"
    by (simp_all only: resync_starts Cons)
  have "insert_all rs [] = [] @ map (\<lambda>m. (internalUserID m, m)) rs"
    using assms(2) by (intro insert_all_fresh) simp_all
  with s(1) have dbs: "db ?s = [] @ map (\<lambda>m. (internalUserID m, m)) rs" by (simp only:)
  have "set (allSync ?s) = set rs" unfolding allSync_set dbs by (simp add: image_comp)
  moreover have "length (allSync ?s) = length rs" unfolding allSync_length dbs by simp
  moreover have "\<forall>m \<in> set rs. id' m < nextID ?s"
    unfolding s(2) using assms(3) by (simp add: raise_all_above)
  ultimately show ?thesis using s(3) unfolding run by blast
qed

theorem resync_rebuilds_witness:
  "distinct (map id' three_records) \<and> distinct (map internalUserID three_records) \<and>
   map (\<lambda>m. id' m < top) three_records = [True, True, True] \<and>
   length [(Ack, Failed ''timeout''), (Failed ''closed'', Ack), (Ack, Ack)] =
     length three_records \<and>
   length (allSync (run (Resync None #
       reads_succeed [(Ack, Failed ''timeout''), (Failed ''closed'', Ack), (Ack, Ack)])
     (boot (populated three_records)))) = 3 \<and>
   nextID (run (Resync None #
       reads_succeed [(Ack, Failed ''timeout''), (Failed ''closed'', Ack), (Ack, Ack)])
     (boot (populated three_records))) = num 8"
  using resync_rebuilds [of three_records
      "[(Ack, Failed ''timeout''), (Failed ''closed'', Ack), (Ack, Ack)]" None]
  by (simp add: eval_defs populated_def three_records_def reads_succeed_def)

text \<open>
  C2 as stated fails, in four ways. The set lists the two ids 1 and 2, each with its
  matching hash, but both records carry the internalUserID \<open>u1\<close>, and the rebuilt index
  has one entry. The single record has the id \<open>2^53\<close>: the counter ends at \<open>2^53\<close>, not
  above it. The fetch of the single record fails: the rebuilt index is empty. And a process
  that already holds a mapping of its own ends with two entries for a store that lists one.
\<close>

theorem resync_rebuilds_counterexample:
  "members (populated two_records) = [num 1, num 2] \<and>
   map (hashes (populated two_records)) [num 1, num 2] = map Some two_records \<and>
   length (allSync (run [Resync None, Reply Ack, Reply Ack, Reply Ack, Reply Ack, Reply Ack,
                         Reply Ack, Reply Ack] (boot (populated two_records)))) = 1 \<and>
   map id' (allSync (run [Resync None, Reply Ack, Reply Ack, Reply Ack, Reply Ack]
                      (boot (populated last_record)))) = [top] \<and>
   nextID (run [Resync None, Reply Ack, Reply Ack, Reply Ack, Reply Ack]
             (boot (populated last_record))) = top \<and>
   allSync (run [Resync None, Reply Ack, Reply (Failed ''timeout'')]
              (boot (populated last_record))) = [] \<and>
   pending (run [Resync None, Reply Ack, Reply (Failed ''timeout'')]
              (boot (populated last_record))) = [] \<and>
   length (allSync (run [AddMapping (uid ''u9'') ''e9'' ''m1'' None, Reply (Failed ''closed''),
                         Reply (Failed ''closed''), Resync None, Reply Ack, Reply Ack,
                         Reply Ack, Reply Ack] (boot (populated last_record)))) = 2"
  by (simp add: eval_defs populated_def two_records_def last_record_def)

subsection \<open>The record of a superseded mapping\<close>








end
